theory Spec2Isabelle
  imports Main "HOL-Library.Word"
begin

unbundle bit_operations_syntax

section \<open>Data model of \<open>world/Section.cpp\<close>\<close>

text \<open>
  \<open>byte\<close> is an unsigned 8-bit value, \<open>unsigned short\<close> an unsigned 16-bit value,
  \<open>int\<close> has 32 bits.  A heap buffer is a pointer that may be null: \<open>None\<close> is \<open>nullptr\<close>, \<open>Some bs\<close> an
  allocation holding the bytes \<open>bs\<close>.  The pair \<open>m_dataBlocks\<close>/\<open>m_dataBlocksLen\<close> is
  one field here: the length of the list is \<open>m_dataBlocksLen\<close> (the constructors, \<open>Parse\<close>
  and the destructor always set the two together, and a null pointer goes with length 0).
\<close>

type_synonym byte = "8 word"
type_synonym ushort = "16 word"

text \<open>
  What C++ leaves undefined is a value of the model: a read through a null pointer, a read
  past the end of a buffer or of a \<open>std::vector\<close> (\<open>operator[]\<close> does not check), and a
  shift of an \<open>int\<close> by a negative count or by 32 or more.
\<close>

datatype fault =
    NullRead
  | BufferOverrun
  | BlocksIndexOutOfRange nat
  | PaletteIndexOutOfRange nat
  | VoxelIndexOutOfRange int
  | BadShift int

text \<open>
  Modelled from the spec: \<open>Vector\<close> is declared outside the sources; section 3 of the
  specification makes a position an integer triple, read with \<open>GetX\<close>, \<open>GetY\<close>, \<open>GetZ\<close>.
\<close>

datatype Vector = Vector (GetX: int) (GetY: int) (GetZ: int)

text \<open>
  Modelled from the spec: \<open>Block\<close> is declared in \<open>world/Block.hpp\<close>, which is not among
  the sources; section 3 of the specification gives it the two unsigned fields
  \<open>typeId\<close> and \<open>auxState\<close>, and \<open>Parse\<close> constructs it from the two values
  \<open>blockId >> 4\<close> and \<open>blockId & 0xF\<close> of an \<open>unsigned short\<close>.
\<close>

datatype Block = Block (typeId: ushort) (auxState: ushort)

text \<open>
  The members of \<open>Section\<close> that \<open>Section.cpp\<close> uses (\<open>parseWaiter\<close> apart, which
  only matters between threads).  Modelled from the spec: the class declaration
  \<open>world/Section.hpp\<close> is not among the sources, so what a member holds when a
  constructor does not assign it is taken from the specification: the voxel sequence is
  there only after decoding (section 3), so \<open>m_blocks\<close> starts empty, and sky light "is
  simply absent when not supplied" (section 4.4), so \<open>m_dataSkyLight\<close> is null then.
\<close>

record Section =
  worldPosition :: Vector
  m_dataBlocks :: "byte list option"
  m_dataLight :: "byte list option"
  m_dataSkyLight :: "byte list option"
  m_blocks :: "Block list"
  m_palette :: "ushort list"
  m_bitsPerBlock :: byte

section \<open>Construction\<close>

text \<open>
  \<open>new byte[n]\<close> followed by \<open>std::copy(src, src + n, dst)\<close>: the result holds the first
  \<open>n\<close> bytes of the source.  Copying no bytes reads nothing, also from a null pointer.
\<close>

definition copy_buffer :: "byte list option \<Rightarrow> nat \<Rightarrow> fault + byte list" where
  "copy_buffer src n =
     (if n = 0 then Inr []
      else case src of
             None \<Rightarrow> Inl NullRead
           | Some bs \<Rightarrow> if length bs < n then Inl BufferOverrun else Inr (take n bs))"

text \<open>
  \<open>Section::Section(position, dataBlocks, dataBlocksLength, dataLight, dataSky,
  bitsPerBlock, palette)\<close>.  The caller's block buffer and its length are the list
  \<open>dataBlocks\<close>; \<open>dataSky\<close> may be null.
\<close>

definition Section_ctor ::
  "Vector \<Rightarrow> byte list \<Rightarrow> byte list option \<Rightarrow> byte list option \<Rightarrow> byte \<Rightarrow> ushort list
     \<Rightarrow> fault + Section" where
  "Section_ctor position dataBlocks dataLight dataSky bitsPerBlock palette =
     (case copy_buffer (Some dataBlocks) (length dataBlocks) of
        Inl f \<Rightarrow> Inl f
      | Inr blocks \<Rightarrow>
     (case copy_buffer dataLight 2048 of
        Inl f \<Rightarrow> Inl f
      | Inr light \<Rightarrow>
     (case (case dataSky of
              None \<Rightarrow> Inr None
            | Some sky \<Rightarrow> map_sum id Some (copy_buffer (Some sky) 2048)) of
        Inl f \<Rightarrow> Inl f
      | Inr sky \<Rightarrow>
          Inr \<lparr> worldPosition = position,
                m_dataBlocks = Some blocks,
                m_dataLight = Some light,
                m_dataSkyLight = sky,
                m_blocks = [],
                m_palette = palette,
                m_bitsPerBlock = bitsPerBlock \<rparr>)))"

text \<open>
  \<open>Section::Section(const Section &other)\<close>.  It allocates \<open>m_dataBlocksLen\<close> bytes
  (\<open>new byte[0]\<close> is a non-null pointer), always copies 2048 bytes from
  \<open>other.m_dataLight\<close>, copies the sky light when \<open>other\<close> has one, and assigns the
  palette and the bit width.  It does not assign \<open>m_blocks\<close>.
\<close>

definition Section_copy :: "Section \<Rightarrow> fault + Section" where
  "Section_copy other =
     (case copy_buffer (m_dataBlocks other)
             (case m_dataBlocks other of None \<Rightarrow> 0 | Some bs \<Rightarrow> length bs) of
        Inl f \<Rightarrow> Inl f
      | Inr blocks \<Rightarrow>
     (case copy_buffer (m_dataLight other) 2048 of
        Inl f \<Rightarrow> Inl f
      | Inr light \<Rightarrow>
     (case (case m_dataSkyLight other of
              None \<Rightarrow> Inr None
            | Some sky \<Rightarrow> map_sum id Some (copy_buffer (Some sky) 2048)) of
        Inl f \<Rightarrow> Inl f
      | Inr sky \<Rightarrow>
          Inr \<lparr> worldPosition = worldPosition other,
                m_dataBlocks = Some blocks,
                m_dataLight = Some light,
                m_dataSkyLight = sky,
                m_blocks = [],
                m_palette = m_palette other,
                m_bitsPerBlock = m_bitsPerBlock other \<rparr>)))"

section \<open>Lookup\<close>



definition GetPosition :: "Section \<Rightarrow> Vector" where
  "GetPosition s = worldPosition s"

section \<open>Decoding\<close>

text \<open>
  Modelled from the spec: \<open>endswap\<close> is defined in \<open>Utility.hpp\<close>, which is not among the
  sources.  Section 4.1 of the specification: the buffer is read as 64-bit words and the
  bytes of each word are swapped in place.  \<open>Parse\<close> applies it to the first
  \<open>m_dataBlocksLen / 8\<close> words, so trailing bytes that do not fill a word stay.
\<close>

fun endswap_words :: "byte list \<Rightarrow> byte list" where
  "endswap_words (a # b # c # d # e # f # g # h # rest) =
     [h, g, f, e, d, c, b, a] @ endswap_words rest"
| "endswap_words bs = bs"

text \<open>
  The state of the bit loop: the byte \<open>m_dataBlocks[i]\<close> being consumed, the accumulator
  \<open>t\<close>, \<open>bitPos\<close> and the vector \<open>blocks\<close>.  One pass of the inner loop body (lines 61-70):
  \<open>t |= (d & 1) ? 0x80 : 0; t >>= 1; d >>= 1; bitPos++\<close>, and once \<open>bitPos\<close> reaches
  \<open>m_bitsPerBlock\<close> the accumulator is shifted right by \<open>m_bitsPerBlock - 1\<close>, pushed and
  reset.  The shift is done on \<open>int\<close>, so its count must lie in 0..31.
\<close>

type_synonym bit_state = "byte \<times> ushort \<times> nat \<times> ushort list"

definition unpack_bit :: "nat \<Rightarrow> bit_state \<Rightarrow> fault + bit_state" where
  "unpack_bit bpb st =
     (case st of (d, t, bitPos, blocks) \<Rightarrow>
        let t1 = drop_bit 1 (t OR (if d AND 1 \<noteq> 0 then 0x80 else 0x00));
            d1 = drop_bit 1 d;
            bitPos1 = bitPos + 1
        in if bpb \<le> bitPos1
           then (if int bpb - 1 < 0 \<or> 32 \<le> int bpb - 1
                 then Inl (BadShift (int bpb - 1))
                 else Inr (d1, 0, 0, blocks @ [drop_bit (bpb - 1) t1]))
           else Inr (d1, t1, bitPos1, blocks))"

text \<open>The inner loop \<open>for (j = 0; j < 8; j++)\<close>, counted down by the passes left.\<close>

fun unpack_bits :: "nat \<Rightarrow> nat \<Rightarrow> bit_state \<Rightarrow> fault + bit_state" where
  "unpack_bits bpb 0 st = Inr st"
| "unpack_bits bpb (Suc n) st =
     (case unpack_bit bpb st of
        Inl f \<Rightarrow> Inl f
      | Inr st' \<Rightarrow> unpack_bits bpb n st')"

text \<open>
  The outer loop over the bytes of the buffer.  It returns the buffer as the loop leaves
  it (every byte is shifted in place), the final accumulator and \<open>bitPos\<close>, and \<open>blocks\<close>.
\<close>

fun unpack_bytes ::
  "nat \<Rightarrow> byte list \<Rightarrow> ushort \<times> nat \<times> ushort list
     \<Rightarrow> fault + (byte list \<times> ushort \<times> nat \<times> ushort list)" where
  "unpack_bytes bpb [] acc = Inr ([], acc)"
| "unpack_bytes bpb (d # ds) acc =
     (case unpack_bits bpb 8 (d, acc) of
        Inl f \<Rightarrow> Inl f
      | Inr (d', acc') \<Rightarrow>
          (case unpack_bytes bpb ds acc' of
             Inl f \<Rightarrow> Inl f
           | Inr (ds', r) \<Rightarrow> Inr (d' # ds', r)))"

text \<open>Lines 57-72 as a whole: \<open>bitPos = 0\<close>, \<open>t = 0\<close>, \<open>blocks\<close> empty.\<close>

definition bit_unpack :: "nat \<Rightarrow> byte list \<Rightarrow> fault + (byte list \<times> ushort list)" where
  "bit_unpack bpb buf =
     (case unpack_bytes bpb buf (0, 0, []) of
        Inl f \<Rightarrow> Inl f
      | Inr (buf', t, bitPos, blocks) \<Rightarrow> Inr (buf', blocks))"

text \<open>
  Lines 74-82: for each of the 2048 bytes of \<open>m_dataLight\<close>, push \<open>t & 0b11110000\<close> and
  then \<open>t >> 4\<close>.
\<close>

fun light_loop :: "byte list \<Rightarrow> nat list \<Rightarrow> byte list \<Rightarrow> fault + byte list" where
  "light_loop buf [] light = Inr light"
| "light_loop buf (i # is) light =
     (if length buf \<le> i then Inl BufferOverrun
      else let t = buf ! i;
               first = t AND 0xF0;
               second = drop_bit 4 t
           in light_loop buf is (light @ [first, second]))"

definition unpack_light :: "byte list option \<Rightarrow> fault + byte list" where
  "unpack_light dataLight =
     (case dataLight of
        None \<Rightarrow> Inl NullRead
      | Some buf \<Rightarrow> light_loop buf [0..<2048] [])"

text \<open>
  Lines 83-87: for \<open>i\<close> from 0 to 4095, read \<open>blocks[i]\<close>, read \<open>m_palette[blocks[i]]\<close>
  when the palette is not empty, and push \<open>Block(blockId >> 4, blockId & 0xF)\<close> onto
  \<open>m_blocks\<close>.
\<close>

definition resolve :: "ushort list \<Rightarrow> ushort list \<Rightarrow> nat \<Rightarrow> fault + Block" where
  "resolve palette blocks i =
     (if length blocks \<le> i then Inl (BlocksIndexOutOfRange i)
      else if 0 < length palette
      then (if length palette \<le> unat (blocks ! i)
            then Inl (PaletteIndexOutOfRange (unat (blocks ! i)))
            else let blockId = palette ! unat (blocks ! i)
                 in Inr (Block (drop_bit 4 blockId) (blockId AND 0xF)))
      else let blockId = blocks ! i
           in Inr (Block (drop_bit 4 blockId) (blockId AND 0xF)))"

fun resolve_loop ::
  "ushort list \<Rightarrow> ushort list \<Rightarrow> nat list \<Rightarrow> Block list \<Rightarrow> fault + Block list" where
  "resolve_loop palette blocks [] voxels = Inr voxels"
| "resolve_loop palette blocks (i # is) voxels =
     (case resolve palette blocks i of
        Inl f \<Rightarrow> Inl f
      | Inr b \<Rightarrow> resolve_loop palette blocks is (voxels @ [b]))"

text \<open>
  Lines 52-87 of \<open>Parse\<close> on a section whose block buffer is \<open>raw\<close>: the normalised and
  consumed buffer, the two local vectors \<open>blocks\<close> and \<open>light\<close>, and \<open>m_blocks\<close> after
  the pushes.
\<close>

definition Parse_decode ::
  "Section \<Rightarrow> byte list \<Rightarrow> fault + (byte list \<times> ushort list \<times> byte list \<times> Block list)" where
  "Parse_decode s raw =
     (case bit_unpack (unat (m_bitsPerBlock s)) (endswap_words raw) of
        Inl f \<Rightarrow> Inl f
      | Inr (buf', blocks) \<Rightarrow>
     (case unpack_light (m_dataLight s) of
        Inl f \<Rightarrow> Inl f
      | Inr light \<Rightarrow>
     (case resolve_loop (m_palette s) blocks [0..<4096] (m_blocks s) of
        Inl f \<Rightarrow> Inl f
      | Inr voxels \<Rightarrow> Inr (buf', blocks, light, voxels))))"

text \<open>
  \<open>Section::Parse\<close>.  It returns at once when \<open>m_dataBlocks\<close> is null.  After the loops it
  throws 118 when \<open>(light.size() + blocks.size()) / 2 != 4096\<close>, with the members as the
  loops left them; otherwise it frees the three buffers and returns.
\<close>

datatype parse_result = Returned Section | Thrown int Section | Undefined fault

definition Parse :: "Section \<Rightarrow> parse_result" where
  "Parse s =
     (case m_dataBlocks s of
        None \<Rightarrow> Returned s
      | Some raw \<Rightarrow>
          (case Parse_decode s raw of
             Inl f \<Rightarrow> Undefined f
           | Inr (buf', blocks, light, voxels) \<Rightarrow>
               if (length light + length blocks) div 2 \<noteq> 4096
               then Thrown 118 (s\<lparr>m_dataBlocks := Some buf', m_blocks := voxels\<rparr>)
               else Returned (s\<lparr>m_dataBlocks := None, m_dataLight := None,
                                 m_dataSkyLight := None, m_blocks := voxels\<rparr>)))"

section \<open>The packer of the specification\<close>

text \<open>
  The specification's round trip packs entries "with the inverse of the Bit-Unpacker
  (LSB-first within each byte, byte-sequential)".  The definitions below follow these words,
  not the code: every entry gives its \<open>bpb\<close> low bits, least significant first; the bits of
  all entries form one stream; every eight bits of the stream make one byte, the first bit
  of a group being bit 0 of the byte.
\<close>

definition spec_value_bits :: "nat \<Rightarrow> ushort \<Rightarrow> bool list" where
  "spec_value_bits bpb v = map (bit v) [0..<bpb]"

fun spec_byte_of_bits :: "bool list \<Rightarrow> byte" where
  "spec_byte_of_bits [] = 0"
| "spec_byte_of_bits (b # bs) = (if b then 1 else 0) + 2 * spec_byte_of_bits bs"

fun spec_chunk8 :: "bool list \<Rightarrow> bool list list" where
  "spec_chunk8 [] = []"
| "spec_chunk8 (b # bs) = take 8 (b # bs) # spec_chunk8 (drop 8 (b # bs))"

definition spec_pack :: "nat \<Rightarrow> ushort list \<Rightarrow> byte list" where
  "spec_pack bpb vs = map spec_byte_of_bits (spec_chunk8 (concat (map (spec_value_bits bpb) vs)))"

section \<open>The pending/decoded invariant of the specification\<close>

text \<open>
  Section 3 of the specification: exactly one of "raw buffers present" and "voxels present"
  holds.  \<open>GetBlock\<close> and \<open>Parse\<close> test \<open>m_dataBlocks\<close> for the first; the second is a
  non-empty \<open>m_blocks\<close>.
\<close>

definition raw_buffers_present :: "Section \<Rightarrow> bool" where
  "raw_buffers_present s \<longleftrightarrow> m_dataBlocks s \<noteq> None"

definition voxels_present :: "Section \<Rightarrow> bool" where
  "voxels_present s \<longleftrightarrow> m_blocks s \<noteq> []"

definition spec_exactly_one :: "Section \<Rightarrow> bool" where
  "spec_exactly_one s \<longleftrightarrow> (raw_buffers_present s \<noteq> voxels_present s)"

section \<open>Sample sections\<close>

text \<open>
  The section that the constructor builds from \<open>n\<close> block bytes \<open>0x12\<close>, 2048 light
  bytes \<open>0xAB\<close>, an optional sky-light buffer, 8 bits per block and an empty palette;
  the section that \<open>Parse\<close> leaves of it when it throws; and the section that \<open>Parse\<close>
  turns it into when it returns.  With 8 bits per block every decoded entry is 0,
  whatever the block bytes are.
\<close>

definition sample_section :: "nat \<Rightarrow> byte list option \<Rightarrow> Section" where
  "sample_section n sky =
     \<lparr> worldPosition = Vector 0 0 0,
       m_dataBlocks = Some (replicate n 0x12),
       m_dataLight = Some (replicate 2048 0xAB),
       m_dataSkyLight = sky,
       m_blocks = [],
       m_palette = [],
       m_bitsPerBlock = 8 \<rparr>"

definition sample_thrown :: "nat \<Rightarrow> byte list option \<Rightarrow> Section" where
  "sample_thrown n sky =
     \<lparr> worldPosition = Vector 0 0 0,
       m_dataBlocks = Some (replicate n 0),
       m_dataLight = Some (replicate 2048 0xAB),
       m_dataSkyLight = sky,
       m_blocks = replicate 4096 (Block 0 0),
       m_palette = [],
       m_bitsPerBlock = 8 \<rparr>"

definition sample_decoded :: Section where
  "sample_decoded =
     \<lparr> worldPosition = Vector 0 0 0,
       m_dataBlocks = None,
       m_dataLight = None,
       m_dataSkyLight = None,
       m_blocks = replicate 4096 (Block 0 0),
       m_palette = [],
       m_bitsPerBlock = 8 \<rparr>"



section \<open>Notions used in the proofs\<close>

text \<open>
  \<open>shift_in d t\<close> is the accumulator after the first two statements of the loop body.
  \<open>acc_ok\<close> is the loop invariant: \<open>bitPos\<close> stays below the width, and after \<open>bitPos\<close>
  passes the accumulator has bits only at the positions \<open>7 - bitPos\<close> to 6.  \<open>emit_ok\<close>
  is what follows for a pushed value: its bits lie at the positions \<open>8 - 2 * bpb\<close> up to
  \<open>7 - bpb\<close>.
\<close>

definition shift_in :: "byte \<Rightarrow> ushort \<Rightarrow> ushort" where
  "shift_in d t = drop_bit 1 (t OR (if d AND 1 \<noteq> 0 then 0x80 else 0x00))"

definition acc_ok :: "nat \<Rightarrow> nat \<Rightarrow> ushort \<Rightarrow> bool" where
  "acc_ok bpb bitPos t \<longleftrightarrow> bitPos < bpb \<and> (\<forall>k. bit t k \<longrightarrow> 7 \<le> k + bitPos \<and> k < 7)"

definition emit_ok :: "nat \<Rightarrow> ushort \<Rightarrow> bool" where
  "emit_ok bpb v \<longleftrightarrow> (\<forall>k. bit v k \<longrightarrow> 8 \<le> k + 2 * bpb \<and> k + bpb < 8)"

section \<open>Properties of the loops\<close>

lemma unpack_bit_alt:
  "unpack_bit bpb (d, t, bitPos, blocks) =
     (if bpb \<le> bitPos + 1
      then (if bpb = 0 \<or> 33 \<le> bpb then Inl (BadShift (int bpb - 1))
            else Inr (drop_bit 1 d, 0, 0, blocks @ [drop_bit (bpb - 1) (shift_in d t)]))
      else Inr (drop_bit 1 d, shift_in d t, bitPos + 1, blocks))"
  unfolding unpack_bit_def shift_in_def Let_def prod.case
  by (rule if_cong [OF refl _ refl], rule if_cong) auto

lemma bit_0x80: "bit (0x80 :: ushort) k \<longleftrightarrow> k = 7"
proof -
  have "(0x80 :: ushort) = 2 ^ 7" by simp
  then show ?thesis by (simp only: bit_exp_iff) (auto simp: possible_bit_def)
qed

lemma bit_shift_in:
  "bit (shift_in d t) k \<longleftrightarrow> bit t (Suc k) \<or> (k = 6 \<and> bit d 0)"
proof -
  have d0: "d AND 1 \<noteq> 0 \<longleftrightarrow> bit d 0"
    by (simp add: and_one_eq bit_0 mod_2_eq_odd)
  have z: "\<not> bit (0 :: ushort) j" for j by simp
  show ?thesis
  proof (cases "bit d 0")
    case True
    then have "shift_in d t = drop_bit 1 (t OR 0x80)"
      unfolding shift_in_def d0 by (simp only: if_True)
    then show ?thesis using True
      by (simp only: bit_drop_bit_eq o_def bit_or_iff bit_0x80) auto
  next
    case False
    then have "shift_in d t = drop_bit 1 (t OR 0x00)"
      unfolding shift_in_def d0 by (simp only: if_False)
    then show ?thesis using False
      by (simp only: bit_drop_bit_eq o_def bit_or_iff z) auto
  qed
qed

lemma acc_ok_0: "0 < bpb \<Longrightarrow> acc_ok bpb 0 0"
  by (simp add: acc_ok_def)

lemma acc_ok_shift_in:
  assumes "acc_ok bpb bitPos t" and "\<not> bpb \<le> bitPos + 1"
  shows "acc_ok bpb (bitPos + 1) (shift_in d t)"
  using assms unfolding acc_ok_def bit_shift_in by fastforce

lemma emit_ok_shift_in:
  assumes "acc_ok bpb bitPos t" and "bpb \<le> bitPos + 1"
  shows "emit_ok bpb (drop_bit (bpb - 1) (shift_in d t))"
proof -
  from assms have eq: "bitPos + 1 = bpb" by (simp add: acc_ok_def)
  show ?thesis
    unfolding emit_ok_def bit_drop_bit_eq bit_shift_in
    using assms(1) eq unfolding acc_ok_def by fastforce
qed

lemma unpack_bit_ok:
  assumes "unpack_bit bpb (d, t, bitPos, blocks) = Inr (d', t', bitPos', blocks')"
    and "acc_ok bpb bitPos t" and "\<forall>v\<in>set blocks. emit_ok bpb v"
  shows "acc_ok bpb bitPos' t' \<and> (\<forall>v\<in>set blocks'. emit_ok bpb v)"
proof (cases "bpb \<le> bitPos + 1")
  case True
  with assms(1) have r: "t' = 0" "bitPos' = 0"
    "blocks' = blocks @ [drop_bit (bpb - 1) (shift_in d t)]"
    by (simp_all add: unpack_bit_alt split: if_splits)
  from assms(2) have "0 < bpb" by (simp add: acc_ok_def)
  with r assms(3) emit_ok_shift_in [OF assms(2) True, of d] show ?thesis
    by (simp add: acc_ok_0)
next
  case False
  with assms(1) have r: "t' = shift_in d t" "bitPos' = bitPos + 1" "blocks' = blocks"
    by (simp_all add: unpack_bit_alt)
  with assms(3) acc_ok_shift_in [OF assms(2) False, of d] show ?thesis by simp
qed

lemma unpack_bits_ok:
  assumes "unpack_bits bpb n (d, t, bitPos, blocks) = Inr (d', t', bitPos', blocks')"
    and "acc_ok bpb bitPos t" and "\<forall>v\<in>set blocks. emit_ok bpb v"
  shows "acc_ok bpb bitPos' t' \<and> (\<forall>v\<in>set blocks'. emit_ok bpb v)"
  using assms
proof (induction n arbitrary: d t bitPos blocks)
  case 0
  then show ?case by simp
next
  case (Suc n)
  from Suc.prems(1) obtain d1 t1 p1 b1 where
    s1: "unpack_bit bpb (d, t, bitPos, blocks) = Inr (d1, t1, p1, b1)"
    and s2: "unpack_bits bpb n (d1, t1, p1, b1) = Inr (d', t', bitPos', blocks')"
    by (auto split: sum.splits)
  from unpack_bit_ok [OF s1 Suc.prems(2,3)] Suc.IH [OF s2] show ?case by blast
qed

lemma unpack_bytes_ok:
  assumes "unpack_bytes bpb ds (t, bitPos, blocks) = Inr (ds', t', bitPos', blocks')"
    and "acc_ok bpb bitPos t" and "\<forall>v\<in>set blocks. emit_ok bpb v"
  shows "acc_ok bpb bitPos' t' \<and> (\<forall>v\<in>set blocks'. emit_ok bpb v)"
  using assms
proof (induction ds arbitrary: t bitPos blocks ds')
  case Nil
  then show ?case by simp
next
  case (Cons d ds)
  from Cons.prems(1) obtain d1 t1 p1 b1 ds1 where
    s1: "unpack_bits bpb 8 (d, t, bitPos, blocks) = Inr (d1, t1, p1, b1)"
    and s2: "unpack_bytes bpb ds (t1, p1, b1) = Inr (ds1, t', bitPos', blocks')"
    by (auto split: sum.splits)
  from unpack_bits_ok [OF s1 Cons.prems(2,3)] Cons.IH [OF s2] show ?case by blast
qed

lemma bit_unpack_emit_ok:
  assumes "bit_unpack bpb buf = Inr (buf', blocks)" and "0 < bpb" and "v \<in> set blocks"
  shows "emit_ok bpb v"
proof -
  from assms(1) obtain t p where
    "unpack_bytes bpb buf (0, 0, []) = Inr (buf', t, p, blocks)"
    by (auto simp: bit_unpack_def split: sum.splits)
  from unpack_bytes_ok [OF this acc_ok_0 [OF assms(2)]] assms(3) show ?thesis by simp
qed

lemma div_carry:
  fixes a b n :: nat
  shows "a div n + (a mod n + b) div n = (a + b) div n"
proof (cases "n = 0")
  case True
  then show ?thesis by simp
next
  case False
  have "a + b = (a mod n + b) + a div n * n" by simp
  then have "(a + b) div n = ((a mod n + b) + a div n * n) div n" by simp
  also have "\<dots> = a div n + (a mod n + b) div n"
    by (rule div_mult_self1 [OF False])
  finally show ?thesis by simp
qed

lemma unpack_bits_shape:
  assumes "0 < bpb" and "bpb \<le> 32" and "bitPos < bpb"
  shows "\<exists>t' new. unpack_bits bpb n (d, t, bitPos, blocks) =
           Inr (drop_bit n d, t', (bitPos + n) mod bpb, blocks @ new)
         \<and> length new = (bitPos + n) div bpb"
  using assms(3)
proof (induction n arbitrary: d t bitPos blocks)
  case 0
  then show ?case by simp
next
  case (Suc n)
  show ?case
  proof (cases "bpb \<le> bitPos + 1")
    case True
    with Suc.prems have eq: "bitPos + 1 = bpb" by simp
    let ?v = "drop_bit (bpb - 1) (shift_in d t)"
    from True assms(1,2) have s1:
      "unpack_bit bpb (d, t, bitPos, blocks) = Inr (drop_bit 1 d, 0, 0, blocks @ [?v])"
      by (simp add: unpack_bit_alt)
    from Suc.IH [OF assms(1), of "drop_bit 1 d" 0 "blocks @ [?v]"] obtain t' new where
      r: "unpack_bits bpb n (drop_bit 1 d, 0, 0, blocks @ [?v]) =
            Inr (drop_bit n (drop_bit 1 d), t', n mod bpb, (blocks @ [?v]) @ new)"
      and l: "length new = n div bpb"
      by auto
    have m: "(bitPos + Suc n) mod bpb = n mod bpb"
      using eq by (metis add.commute add_Suc_right mod_add_self1 Suc_eq_plus1 add_Suc)
    have dv: "(bitPos + Suc n) div bpb = Suc (n div bpb)"
      using eq assms(1) by (metis add.commute add_Suc_right div_add_self1 Suc_eq_plus1 add_Suc
          not_gr_zero)
    have "unpack_bits bpb (Suc n) (d, t, bitPos, blocks) =
            Inr (drop_bit (Suc n) d, t', (bitPos + Suc n) mod bpb, blocks @ (?v # new))"
      using s1 r m by (simp add: drop_bit_drop_bit)
    moreover have "length (?v # new) = (bitPos + Suc n) div bpb"
      using l dv by simp
    ultimately show ?thesis by blast
  next
    case False
    then have lt: "bitPos + 1 < bpb" by simp
    from False have s1:
      "unpack_bit bpb (d, t, bitPos, blocks) = Inr (drop_bit 1 d, shift_in d t, bitPos + 1, blocks)"
      by (simp add: unpack_bit_alt)
    from Suc.IH [OF lt, of "drop_bit 1 d" "shift_in d t" blocks] obtain t' new where
      r: "unpack_bits bpb n (drop_bit 1 d, shift_in d t, bitPos + 1, blocks) =
            Inr (drop_bit n (drop_bit 1 d), t', (bitPos + 1 + n) mod bpb, blocks @ new)"
      and l: "length new = (bitPos + 1 + n) div bpb"
      by auto
    have "unpack_bits bpb (Suc n) (d, t, bitPos, blocks) =
            Inr (drop_bit (Suc n) d, t', (bitPos + Suc n) mod bpb, blocks @ new)"
      using s1 r by (simp add: drop_bit_drop_bit)
    moreover have "length new = (bitPos + Suc n) div bpb" using l by simp
    ultimately show ?thesis by blast
  qed
qed

lemma drop_bit_8_byte: "drop_bit 8 (d :: byte) = 0"
  by (rule bit_word_eqI) (simp add: bit_drop_bit_eq bit_imp_le_length)

lemma unpack_bytes_shape:
  assumes "0 < bpb" and "bpb \<le> 32" and "bitPos < bpb"
  shows "\<exists>t' new. unpack_bytes bpb ds (t, bitPos, blocks) =
           Inr (replicate (length ds) 0, t', (bitPos + 8 * length ds) mod bpb, blocks @ new)
         \<and> length new = (bitPos + 8 * length ds) div bpb"
  using assms(3)
proof (induction ds arbitrary: t bitPos blocks)
  case Nil
  then show ?case by simp
next
  case (Cons d ds)
  from unpack_bits_shape [OF assms(1,2) Cons.prems, of 8 d t blocks] obtain t1 new1 where
    s1: "unpack_bits bpb 8 (d, t, bitPos, blocks) =
           Inr (0, t1, (bitPos + 8) mod bpb, blocks @ new1)"
    and l1: "length new1 = (bitPos + 8) div bpb"
    by (auto simp: drop_bit_8_byte)
  have "(bitPos + 8) mod bpb < bpb" using assms(1) by simp
  from Cons.IH [OF this, of t1 "blocks @ new1"] obtain t' new where
    s2: "unpack_bytes bpb ds (t1, (bitPos + 8) mod bpb, blocks @ new1) =
           Inr (replicate (length ds) 0, t',
                ((bitPos + 8) mod bpb + 8 * length ds) mod bpb, (blocks @ new1) @ new)"
    and l2: "length new = ((bitPos + 8) mod bpb + 8 * length ds) div bpb"
    by auto
  have m: "((bitPos + 8) mod bpb + 8 * length ds) mod bpb = (bitPos + 8 * length (d # ds)) mod bpb"
    by (simp add: mod_add_left_eq add.assoc)
  have "unpack_bytes bpb (d # ds) (t, bitPos, blocks) =
          Inr (replicate (length (d # ds)) 0, t', (bitPos + 8 * length (d # ds)) mod bpb,
               blocks @ (new1 @ new))"
    using s1 s2 m by simp
  moreover have "length (new1 @ new) = (bitPos + 8 * length (d # ds)) div bpb"
    using l1 l2 div_carry [of "bitPos + 8" bpb "8 * length ds"] by (simp add: add.assoc)
  ultimately show ?case by blast
qed

lemma bit_unpack_shape:
  assumes "0 < bpb" and "bpb \<le> 32"
  shows "\<exists>blocks. bit_unpack bpb buf = Inr (replicate (length buf) 0, blocks)
           \<and> length blocks = (8 * length buf) div bpb"
proof -
  from unpack_bytes_shape [OF assms assms(1), of buf 0 "[]"] show ?thesis
    by (auto simp: bit_unpack_def)
qed

lemma unpack_bits_unfold:
  "unpack_bits bpb (numeral k) st =
     (case unpack_bit bpb st of Inl f \<Rightarrow> Inl f | Inr st' \<Rightarrow> unpack_bits bpb (pred_numeral k) st')"
  by (simp add: numeral_eq_Suc)

lemma lt4_cases: "k < 4 \<Longrightarrow> k = 0 \<or> k = Suc 0 \<or> k = Suc (Suc 0) \<or> k = Suc (Suc (Suc 0))"
  for k :: nat by arith

lemma unpack_nibble:
  "unpack_bits 4 4 (d, 0, 0, blocks) = Inr (drop_bit 4 d, 0, 0, blocks @ [ucast (take_bit 4 d)])"
proof -
  have "drop_bit 3 (shift_in (drop_bit 3 d) (shift_in (drop_bit 2 d)
          (shift_in (drop_bit 1 d) (shift_in d 0)))) = (ucast (take_bit 4 d) :: ushort)"
  proof (rule bit_word_eqI)
    fix k :: nat
    assume "k < LENGTH(16)"
    show "bit (drop_bit 3 (shift_in (drop_bit 3 d) (shift_in (drop_bit 2 d)
          (shift_in (drop_bit 1 d) (shift_in d 0))))) k = bit (ucast (take_bit 4 d) :: ushort) k"
    proof (cases "k < 4")
      case True
      from lt4_cases [OF this] show ?thesis
        by (auto simp: bit_drop_bit_eq bit_shift_in bit_ucast_iff bit_take_bit_iff numeral_2_eq_2 numeral_3_eq_3)
    next
      case False
      then show ?thesis
        by (auto simp: bit_drop_bit_eq bit_shift_in bit_ucast_iff bit_take_bit_iff numeral_2_eq_2 numeral_3_eq_3)
    qed
  qed
  then show ?thesis
    by (simp add: unpack_bits_unfold unpack_bit_alt drop_bit_drop_bit numeral_2_eq_2 [symmetric])
qed

lemma unpack_bits_wide:
  assumes "32 < bpb" and "bitPos < bpb"
    and "unpack_bits bpb n (d, t, bitPos, blocks) = Inr (d', t', bitPos', blocks')"
  shows "blocks' = blocks \<and> bitPos' = bitPos + n \<and> bitPos' < bpb"
  using assms(2,3)
proof (induction n arbitrary: d t bitPos)
  case 0
  then show ?case by simp
next
  case (Suc n)
  from Suc.prems(2) assms(1) have lt: "bitPos + 1 < bpb"
    by (auto simp: unpack_bit_alt split: if_splits)
  with Suc.prems(2) have
    "unpack_bits bpb n (drop_bit 1 d, shift_in d t, bitPos + 1, blocks) = Inr (d', t', bitPos', blocks')"
    by (simp add: unpack_bit_alt)
  from Suc.IH [OF lt this] show ?case by simp
qed

lemma unpack_bytes_wide:
  assumes "32 < bpb" and "bitPos < bpb"
    and "unpack_bytes bpb ds (t, bitPos, blocks) = Inr (ds', t', bitPos', blocks')"
  shows "blocks' = blocks \<and> bitPos' = bitPos + 8 * length ds \<and> bitPos' < bpb"
  using assms(2,3)
proof (induction ds arbitrary: t bitPos ds')
  case Nil
  then show ?case by simp
next
  case (Cons d ds)
  from Cons.prems(2) obtain d1 t1 p1 b1 ds1 where
    s1: "unpack_bits bpb 8 (d, t, bitPos, blocks) = Inr (d1, t1, p1, b1)"
    and s2: "unpack_bytes bpb ds (t1, p1, b1) = Inr (ds1, t', bitPos', blocks')"
    by (auto split: sum.splits)
  from unpack_bits_wide [OF assms(1) Cons.prems(1) s1]
  have a: "b1 = blocks" "p1 = bitPos + 8" "p1 < bpb" by simp_all
  from Cons.IH [OF a(3) s2 [unfolded a(1)]] a show ?case by simp
qed

lemma bit_unpack_length:
  assumes "0 < bpb" and "bit_unpack bpb buf = Inr (buf', blocks)"
  shows "length blocks = (8 * length buf) div bpb"
proof (cases "bpb \<le> 32")
  case True
  from bit_unpack_shape [OF assms(1) True, of buf] assms(2) show ?thesis by auto
next
  case False
  then have w: "32 < bpb" by simp
  from assms(2) obtain t p where
    "unpack_bytes bpb buf (0, 0, []) = Inr (buf', t, p, blocks)"
    by (auto simp: bit_unpack_def split: sum.splits)
  from unpack_bytes_wide [OF w assms(1) this] show ?thesis by simp
qed

lemma bits_below_bound:
  fixes v :: ushort
  assumes "\<And>k. bit v k \<Longrightarrow> k < m"
  shows "unat v < 2 ^ m"
proof -
  have "take_bit m v = v"
    by (rule bit_word_eqI) (auto simp: bit_take_bit_iff dest: assms)
  then have "unat v = take_bit m (unat v)"
    by (metis unsigned_take_bit_eq)
  then show ?thesis by (metis take_bit_nat_less_exp)
qed

lemma emit_ok_bound:
  assumes "emit_ok bpb v" and "bpb \<le> 8"
  shows "unat v < 2 ^ (8 - bpb)"
  using assms by (intro bits_below_bound) (auto simp: emit_ok_def)

lemma emit_ok_zero:
  assumes "emit_ok bpb v" and "8 \<le> bpb"
  shows "v = 0"
  using assms by (intro bit_word_eqI) (auto simp: emit_ok_def)

lemma emit_ok_even:
  assumes "emit_ok bpb v" and "bpb \<le> 3"
  shows "even (unat v)"
proof -
  from assms have "\<not> bit v 0" by (auto simp: emit_ok_def)
  then have "\<not> bit (unat v) 0" by (simp add: bit_unsigned_iff)
  then show ?thesis by (simp only: bit_0 not_not)
qed

lemma emit_ok_not_top:
  assumes "emit_ok bpb v" and "0 < bpb" and "bpb \<noteq> 4"
  shows "unat v \<noteq> 2 ^ bpb - 1"
proof -
  consider "bpb \<le> 3" | "5 \<le> bpb" "bpb \<le> 8" | "8 < bpb" using assms(3) by linarith
  then show ?thesis
  proof cases
    case 1
    have "odd ((2::nat) ^ bpb - 1)" using assms(2) by simp
    with emit_ok_even [OF assms(1) 1] show ?thesis by metis
  next
    case 2
    have "(2::nat) ^ (8 - bpb) \<le> 2 ^ 3" using 2 by (intro power_increasing) simp_all
    moreover have "(2::nat) ^ 5 \<le> 2 ^ bpb" using 2 by (intro power_increasing) simp_all
    ultimately show ?thesis using emit_ok_bound [OF assms(1) 2(2)] by simp
  next
    case 3
    then have "v = 0" using emit_ok_zero [OF assms(1)] by simp
    moreover have "(2::nat) ^ 1 \<le> 2 ^ bpb" using 3 by (intro power_increasing) simp_all
    ultimately show ?thesis by simp
  qed
qed

lemma unpack_bits_add:
  "unpack_bits bpb (m + n) st =
     (case unpack_bits bpb m st of Inl f \<Rightarrow> Inl f | Inr st' \<Rightarrow> unpack_bits bpb n st')"
  by (induction m arbitrary: st) (auto split: sum.splits)

lemma unpack_byte_4:
  "unpack_bits 4 8 (d, 0, 0, blocks) =
     Inr (0, 0, 0, blocks @ [ucast (take_bit 4 d), ucast (drop_bit 4 d)])"
proof -
  have t: "take_bit 4 (drop_bit 4 d) = drop_bit 4 d"
    by (rule bit_word_eqI) (auto simp: bit_take_bit_iff bit_drop_bit_eq dest: bit_imp_le_length)
  have "unpack_bits 4 (4 + 4) (d, 0, 0, blocks) =
     Inr (drop_bit 4 (drop_bit 4 d), 0, 0,
          (blocks @ [ucast (take_bit 4 d)]) @ [ucast (take_bit 4 (drop_bit 4 d))])"
    by (simp only: unpack_bits_add unpack_nibble sum.case)
  then show ?thesis by (simp add: drop_bit_drop_bit drop_bit_8_byte t)
qed

lemma bit_unpack_4_single:
  "bit_unpack 4 [d] = Inr ([0], [ucast (take_bit 4 d), ucast (drop_bit 4 d)])"
  by (simp add: bit_unpack_def unpack_byte_4)

lemma low_entry_roundtrip:
  fixes v :: ushort
  assumes "unat v < 16"
  shows "(ucast (take_bit 4 (ucast v :: byte)) :: ushort) = v"
proof -
  have "unat (take_bit 4 v) = take_bit 4 (unat v)"
    by (rule unsigned_take_bit_eq)
  also have "\<dots> = unat v mod 2 ^ 4"
    by (rule take_bit_eq_mod)
  also have "\<dots> = unat v" using assms by simp
  finally have e: "take_bit 4 v = v" by (rule word_unat_eq_iff [THEN iffD2])
  have "(ucast (take_bit 4 (ucast v :: byte)) :: ushort) = take_bit 4 v"
    by (rule bit_word_eqI) (auto simp: bit_ucast_iff bit_take_bit_iff)
  with e show ?thesis by simp
qed

lemma light_loop_eq:
  assumes "\<forall>i\<in>set is. i < length buf"
  shows "light_loop buf is light =
           Inr (light @ concat (map (\<lambda>i. [buf ! i AND 0xF0, drop_bit 4 (buf ! i)]) is))"
  using assms
proof (induction "is" arbitrary: light)
  case Nil
  then show ?case by simp
next
  case (Cons i "is")
  then show ?case by (simp add: Let_def)
qed

lemma light_loop_overrun:
  assumes "\<exists>i\<in>set is. length buf \<le> i"
  shows "light_loop buf is light = Inl BufferOverrun"
  using assms
proof (induction "is" arbitrary: light)
  case Nil
  then show ?case by simp
next
  case (Cons i "is")
  then show ?case by (auto simp: Let_def)
qed

lemma unpack_light_eq:
  assumes "2048 \<le> length buf"
  shows "unpack_light (Some buf) =
           Inr (concat (map (\<lambda>i. [buf ! i AND 0xF0, drop_bit 4 (buf ! i)]) [0..<2048]))"
  using assms by (simp add: unpack_light_def light_loop_eq)

lemma length_concat_pairs: "length (concat (map (\<lambda>i. [f i, g i]) is)) = 2 * length is"
  by (induction "is") simp_all

lemma nth_concat_pairs:
  assumes "k < length is"
  shows "concat (map (\<lambda>i. [f i, g i]) is) ! (2 * k) = f (is ! k)
       \<and> concat (map (\<lambda>i. [f i, g i]) is) ! (2 * k + 1) = g (is ! k)"
  using assms
proof (induction "is" arbitrary: k)
  case Nil
  then show ?case by simp
next
  case (Cons i "is")
  then show ?case by (cases k) simp_all
qed

lemma unpack_light_Inr:
  assumes "unpack_light dataLight = Inr light"
  shows "\<exists>buf. dataLight = Some buf \<and> 2048 \<le> length buf \<and> length light = 4096
           \<and> (\<forall>i<2048. light ! (2 * i) = buf ! i AND 0xF0 \<and> light ! (2 * i + 1) = drop_bit 4 (buf ! i))"
proof -
  from assms obtain buf where b: "dataLight = Some buf"
    by (auto simp: unpack_light_def split: option.splits)
  have len: "2048 \<le> length buf"
  proof (rule ccontr)
    assume "\<not> 2048 \<le> length buf"
    then have "\<exists>i\<in>set [0..<2048]. length buf \<le> i" by (intro bexI [of _ "length buf"]) simp_all
    from light_loop_overrun [OF this] assms b show False by (simp add: unpack_light_def)
  qed
  from unpack_light_eq [OF len] assms b
  have l: "light = concat (map (\<lambda>i. [buf ! i AND 0xF0, drop_bit 4 (buf ! i)]) [0..<2048])" by simp
  have "length light = 4096" unfolding l length_concat_pairs by simp
  moreover have "light ! (2 * i) = buf ! i AND 0xF0 \<and> light ! (2 * i + 1) = drop_bit 4 (buf ! i)"
    if "i < 2048" for i
    using nth_concat_pairs [of i "[0..<2048]" "\<lambda>i. buf ! i AND 0xF0" "\<lambda>i. drop_bit 4 (buf ! i)"] that
    unfolding l by simp
  ultimately show ?thesis using b len by blast
qed

lemma Parse_decode_sky: "Parse_decode (s\<lparr>m_dataSkyLight := sky\<rparr>) raw = Parse_decode s raw"
  by (simp add: Parse_decode_def split: sum.splits prod.splits)

lemma resolve_loop_Inr:
  assumes "resolve_loop palette blocks is voxels = Inr r"
  shows "\<exists>new. r = voxels @ new \<and> length new = length is
           \<and> (\<forall>k<length is. resolve palette blocks (is ! k) = Inr (new ! k))"
  using assms
proof (induction "is" arbitrary: voxels)
  case Nil
  then show ?case by simp
next
  case (Cons i "is")
  from Cons.prems obtain b where
    b: "resolve palette blocks i = Inr b"
    and rest: "resolve_loop palette blocks is (voxels @ [b]) = Inr r"
    by (auto split: sum.splits)
  from Cons.IH [OF rest] obtain new where
    n: "r = (voxels @ [b]) @ new" "length new = length is"
       "\<forall>k<length is. resolve palette blocks (is ! k) = Inr (new ! k)"
    by blast
  have "\<forall>k<length (i # is). resolve palette blocks ((i # is) ! k) = Inr ((b # new) ! k)"
  proof (intro allI impI)
    fix k assume "k < length (i # is)"
    then show "resolve palette blocks ((i # is) ! k) = Inr ((b # new) ! k)"
      using b n(3) by (cases k) simp_all
  qed
  with n(1,2) show ?case by (intro exI [of _ "b # new"]) simp
qed

lemma resolve_loop_ok:
  assumes "\<forall>i\<in>set is. resolve palette blocks i = Inr (f i)"
  shows "resolve_loop palette blocks is voxels = Inr (voxels @ map f is)"
  using assms by (induction "is" arbitrary: voxels) simp_all

lemma resolve_loop_fault:
  assumes "\<forall>i\<in>set is. resolve palette blocks i = Inr (f i)"
    and "resolve palette blocks j = Inl e"
  shows "resolve_loop palette blocks (is @ j # js) voxels = Inl e"
  using assms by (induction "is" arbitrary: voxels) simp_all

lemma resolve_loop_short:
  assumes "resolve_loop palette blocks [0..<4096] voxels = Inr r"
  shows "4096 \<le> length blocks"
proof (rule ccontr)
  assume "\<not> 4096 \<le> length blocks"
  then have lt: "length blocks < length [0..<4096]" by simp
  from resolve_loop_Inr [OF assms] obtain new where
    "\<forall>k<length [0..<4096]. resolve palette blocks ([0..<4096] ! k) = Inr (new ! k)" by blast
  with lt have "resolve palette blocks ([0..<4096] ! length blocks) = Inr (new ! length blocks)"
    by blast
  moreover have "[0..<4096] ! length blocks = length blocks" using lt by simp
  ultimately show False by (simp add: resolve_def)
qed

lemma length_endswap_words: "length (endswap_words bs) = length bs"
  by (induction bs rule: endswap_words.induct) simp_all

lemma copy_buffer_whole: "copy_buffer (Some bs) (length bs) = Inr bs"
  by (simp add: copy_buffer_def)

lemma Section_ctor_Inr:
  assumes "Section_ctor position dataBlocks dataLight dataSky bitsPerBlock palette = Inr s"
  shows "m_dataBlocks s = Some dataBlocks \<and> m_blocks s = [] \<and> m_palette s = palette
       \<and> m_bitsPerBlock s = bitsPerBlock \<and> worldPosition s = position
       \<and> (\<exists>l. dataLight = Some l \<and> 2048 \<le> length l \<and> m_dataLight s = Some (take 2048 l))
       \<and> (case dataSky of None \<Rightarrow> m_dataSkyLight s = None
           | Some k \<Rightarrow> 2048 \<le> length k \<and> m_dataSkyLight s = Some (take 2048 k))"
  using assms unfolding Section_ctor_def copy_buffer_whole
  by (auto simp: copy_buffer_def split: option.splits if_splits sum.splits)

lemma Parse_Returned_pending:
  assumes "m_dataBlocks s = Some raw" and "Parse s = Returned s'"
  shows "\<exists>buf' blocks light voxels.
           Parse_decode s raw = Inr (buf', blocks, light, voxels)
         \<and> (length light + length blocks) div 2 = 4096
         \<and> s' = s\<lparr>m_dataBlocks := None, m_dataLight := None,
                   m_dataSkyLight := None, m_blocks := voxels\<rparr>"
  using assms by (auto simp: Parse_def split: sum.splits if_splits)

lemma Parse_decode_Inr:
  assumes "Parse_decode s raw = Inr (buf', blocks, light, voxels)"
  shows "bit_unpack (unat (m_bitsPerBlock s)) (endswap_words raw) = Inr (buf', blocks)
       \<and> unpack_light (m_dataLight s) = Inr light
       \<and> resolve_loop (m_palette s) blocks [0..<4096] (m_blocks s) = Inr voxels"
  using assms by (auto simp: Parse_decode_def split: sum.splits)


lemma bit_unpack_8: "bit_unpack 8 buf = Inr (replicate (length buf) 0, replicate (length buf) 0)"
proof -
  from bit_unpack_shape [of 8 buf] obtain blocks where
    u: "bit_unpack 8 buf = Inr (replicate (length buf) 0, blocks)"
    and l: "length blocks = length buf"
    by auto
  have "v = 0" if "v \<in> set blocks" for v
    using bit_unpack_emit_ok [OF u _ that] emit_ok_zero [of 8 v] by simp
  with l have "blocks = replicate (length buf) 0" by (intro replicate_eqI) simp_all
  with u show ?thesis by simp
qed

lemma resolve_zero:
  "resolve [] (replicate n 0) i =
     (if n \<le> i then Inl (BlocksIndexOutOfRange i) else Inr (Block 0 0))"
  by (simp add: resolve_def)

lemma resolve_loop_zero_ok:
  assumes "4096 \<le> n"
  shows "resolve_loop [] (replicate n 0) [0..<4096] voxels = Inr (voxels @ replicate 4096 (Block 0 0))"
proof -
  have "\<forall>i\<in>set [0..<4096]. resolve [] (replicate n 0) i = Inr (Block 0 0)"
    using assms by (simp add: resolve_zero)
  from resolve_loop_ok [OF this, of voxels] show ?thesis
    by (simp add: map_replicate_const)
qed

lemma resolve_loop_zero_short:
  assumes "n < 4096"
  shows "resolve_loop [] (replicate n 0) [0..<4096] voxels = Inl (BlocksIndexOutOfRange n)"
proof -
  have "[0..<n + (4096 - n)] = [0..<n] @ [n..<n + (4096 - n)]"
    by (rule upt_add_eq_append) simp
  moreover have "[n..<4096] = n # [Suc n..<4096]"
    using assms by (rule upt_conv_Cons)
  ultimately have split: "[0..<4096] = [0..<n] @ n # [Suc n..<4096]"
    using assms by simp
  have ok: "\<forall>i\<in>set [0..<n]. resolve [] (replicate n 0) i = Inr (Block 0 0)"
    by (simp add: resolve_zero)
  have bad: "resolve [] (replicate n 0) n = Inl (BlocksIndexOutOfRange n)"
    by (simp add: resolve_zero)
  show ?thesis unfolding split by (rule resolve_loop_fault [OF ok bad])
qed

lemma unpack_light_AB:
  "unpack_light (Some (replicate 2048 0xAB)) = Inr (concat (replicate 2048 [0xA0, 0x0A]))"
proof -
  have "map (\<lambda>i. [replicate 2048 (0xAB :: byte) ! i AND 0xF0, drop_bit 4 (replicate 2048 (0xAB :: byte) ! i)]) [0..<2048]
      = map (\<lambda>i. [0xA0, 0x0A]) [0..<2048]"
    by (rule map_cong) simp_all
  then show ?thesis
    by (simp add: unpack_light_eq map_replicate_const)
qed

lemma Parse_decode_sample:
  "Parse_decode (sample_section n sky) (replicate n 0x12) =
     (if n < 4096 then Inl (BlocksIndexOutOfRange n)
      else Inr (replicate n 0, replicate n 0, concat (replicate 2048 [0xA0, 0x0A]),
                replicate 4096 (Block 0 0)))"
  by (simp add: Parse_decode_def sample_section_def bit_unpack_8 length_endswap_words
      unpack_light_AB resolve_loop_zero_ok resolve_loop_zero_short)

lemma length_concat_replicate_pair: "length (concat (replicate n [a, b])) = 2 * n"
  by (induction n) simp_all

lemma Parse_sample:
  "Parse (sample_section n sky) =
     (if n < 4096 then Undefined (BlocksIndexOutOfRange n)
      else if n = 4096 \<or> n = 4097
      then Returned ((sample_section n sky)\<lparr>m_dataBlocks := None, m_dataLight := None,
                       m_dataSkyLight := None, m_blocks := replicate 4096 (Block 0 0)\<rparr>)
      else Thrown 118 ((sample_section n sky)\<lparr>m_dataBlocks := Some (replicate n 0),
                         m_blocks := replicate 4096 (Block 0 0)\<rparr>))"
proof -
  have m: "m_dataBlocks (sample_section n sky) = Some (replicate n 0x12)"
    by (simp add: sample_section_def)
  have c: "(length (concat (replicate 2048 [0xA0 :: byte, 0x0A])) + length (replicate n (0 :: ushort))) div 2 \<noteq> 4096
        \<longleftrightarrow> \<not> (n = 4096 \<or> n = 4097)" if "\<not> n < 4096"
    using that unfolding length_concat_replicate_pair length_replicate by presburger
  show ?thesis
    unfolding Parse_def m option.case Parse_decode_sample
    using c by (cases "n < 4096") (simp_all del: length_replicate)
qed

lemma Section_ctor_sample:
  "Section_ctor (Vector 0 0 0) (replicate n 0x12) (Some (replicate 2048 0xAB)) None 8 []
     = Inr (sample_section n None)"
  by (simp add: Section_ctor_def copy_buffer_def sample_section_def)

lemma Section_ctor_sample_sky:
  "Section_ctor (Vector 0 0 0) (replicate n 0x12) (Some (replicate 2048 0xAB))
       (Some (replicate 2048 0x5C)) 8 []
     = Inr (sample_section n (Some (replicate 2048 0x5C)))"
  by (simp add: Section_ctor_def copy_buffer_def sample_section_def)

lemma spec_value_bits_31: "spec_value_bits 5 31 = replicate 5 True"
proof -
  have u: "[0..<5] = [0, 1, 2, 3, 4 :: nat]" by code_simp
  have r: "replicate 5 True = [True, True, True, True, True]" by code_simp
  show ?thesis unfolding spec_value_bits_def u r by simp
qed

lemma concat_replicate_replicate: "concat (replicate n (replicate m x)) = replicate (n * m) x"
  by (induction n) (simp_all add: replicate_add)

lemma spec_chunk8_replicate: "spec_chunk8 (replicate (8 * k) x) = replicate k (replicate 8 x)"
proof (induction k)
  case 0
  then show ?case by simp
next
  case (Suc k)
  have "replicate (8 * Suc k) x = replicate 8 x @ replicate (8 * k) x"
    by (simp add: replicate_add [symmetric])
  moreover have "replicate 8 x = x # replicate 7 x" by (simp add: numeral_eq_Suc)
  ultimately have "replicate (8 * Suc k) x = x # (replicate 7 x @ replicate (8 * k) x)" by simp
  then have "spec_chunk8 (replicate (8 * Suc k) x) =
      take 8 (replicate 8 x @ replicate (8 * k) x) # spec_chunk8 (drop 8 (replicate 8 x @ replicate (8 * k) x))"
    using \<open>replicate 8 x = x # replicate 7 x\<close> by (metis append_Cons spec_chunk8.simps(2))
  then show ?case using Suc.IH by simp
qed

lemma spec_byte_all_ones: "spec_byte_of_bits (replicate 8 True) = 0xFF"
  by (simp add: numeral_eq_Suc)

lemma spec_pack_all_31: "spec_pack 5 (replicate 4096 31) = replicate 2560 0xFF"
proof -
  have "concat (map (spec_value_bits 5) (replicate 4096 31)) = replicate (8 * 2560) True"
    by (simp add: spec_value_bits_31 concat_replicate_replicate)
  then show ?thesis
    by (simp only: spec_pack_def spec_chunk8_replicate map_replicate spec_byte_all_ones)
qed

lemma unpack_bytes_append:
  "unpack_bytes bpb (xs @ ys) acc =
     (case unpack_bytes bpb xs acc of
        Inl f \<Rightarrow> Inl f
      | Inr (xs', acc') \<Rightarrow>
          (case unpack_bytes bpb ys acc' of
             Inl f \<Rightarrow> Inl f
           | Inr (ys', r) \<Rightarrow> Inr (xs' @ ys', r)))"
  by (induction xs arbitrary: acc) (auto split: sum.splits)

lemma unpack_five_ones:
  "unpack_bytes 5 [0xFF, 0xFF, 0xFF, 0xFF, 0xFF] (0, 0, blocks) =
     Inr ([0, 0, 0, 0, 0], 0, 0, blocks @ [7, 7, 7, 7, 7, 7, 7, 7])"
  by (simp add: unpack_bits_unfold unpack_bit_alt shift_in_def)

lemma unpack_ones_groups:
  "unpack_bytes 5 (replicate (5 * k) 0xFF) (0, 0, blocks) =
     Inr (replicate (5 * k) 0, 0, 0, blocks @ replicate (8 * k) 7)"
proof (induction k arbitrary: blocks)
  case 0
  then show ?case by simp
next
  case (Suc k)
  have r: "replicate (5 * Suc k) (0xFF :: byte) = [0xFF, 0xFF, 0xFF, 0xFF, 0xFF] @ replicate (5 * k) 0xFF"
    by (simp add: numeral_eq_Suc)
  have z: "replicate (5 * Suc k) (0 :: byte) = [0, 0, 0, 0, 0] @ replicate (5 * k) 0"
    by (simp add: numeral_eq_Suc)
  have s: "replicate (8 * Suc k) (7 :: ushort) = [7, 7, 7, 7, 7, 7, 7, 7] @ replicate (8 * k) 7"
    by (simp add: numeral_eq_Suc)
  have "unpack_bytes 5 ([0xFF, 0xFF, 0xFF, 0xFF, 0xFF] @ replicate (5 * k) 0xFF) (0, 0, blocks) =
          Inr ([0, 0, 0, 0, 0] @ replicate (5 * k) 0, 0, 0,
               (blocks @ [7, 7, 7, 7, 7, 7, 7, 7]) @ replicate (8 * k) 7)"
    by (simp only: unpack_bytes_append unpack_five_ones Suc.IH sum.case prod.case)
  then show ?case by (simp only: r z s append_assoc)
qed

lemma Parse_sample_decoded:
  "n = 4096 \<or> n = 4097 \<Longrightarrow> Parse (sample_section n sky) = Returned sample_decoded"
  by (auto simp: Parse_sample) (simp_all add: sample_section_def sample_decoded_def)

lemma Parse_sample_thrown:
  "4097 < n \<Longrightarrow> Parse (sample_section n sky) =
     Thrown 118 (sample_thrown n sky)"
  by (simp add: Parse_sample) (simp add: sample_section_def sample_thrown_def)

lemma Parse_outcome_decode:
  assumes "m_dataBlocks s = Some raw"
  shows "Parse s =
     (case Parse_decode s raw of
        Inl f \<Rightarrow> Undefined f
      | Inr (buf', blocks, light, voxels) \<Rightarrow>
          if (length light + length blocks) div 2 \<noteq> 4096
          then Thrown 118 (s\<lparr>m_dataBlocks := Some buf', m_blocks := voxels\<rparr>)
          else Returned (s\<lparr>m_dataBlocks := None, m_dataLight := None,
                            m_dataSkyLight := None, m_blocks := voxels\<rparr>))"
  using assms by (simp add: Parse_def)

lemma Parse_completes_count:
  assumes "m_dataBlocks s = Some raw" and "1 \<le> unat (m_bitsPerBlock s)"
    and "Parse s = Returned s' \<or> Parse s = Thrown e s'"
  shows "4096 \<le> (8 * length raw) div unat (m_bitsPerBlock s)"
proof -
  from assms(3) obtain buf' blocks light voxels where
    d: "Parse_decode s raw = Inr (buf', blocks, light, voxels)"
    unfolding Parse_outcome_decode [OF assms(1)] by (auto split: sum.splits)
  from Parse_decode_Inr [OF d] have
    u: "bit_unpack (unat (m_bitsPerBlock s)) (endswap_words raw) = Inr (buf', blocks)"
    and r: "resolve_loop (m_palette s) blocks [0..<4096] (m_blocks s) = Inr voxels"
    by simp_all
  from bit_unpack_length [OF _ u] assms(2)
  have "length blocks = (8 * length raw) div unat (m_bitsPerBlock s)"
    by (simp add: length_endswap_words)
  with resolve_loop_short [OF r] show ?thesis by simp
qed

lemma Section_copy_Inr:
  assumes "Section_copy other = Inr c" and "m_dataBlocks other = Some bs"
  shows "m_dataBlocks c = Some bs \<and> m_blocks c = [] \<and> m_palette c = m_palette other
       \<and> m_bitsPerBlock c = m_bitsPerBlock other \<and> worldPosition c = worldPosition other
       \<and> (\<exists>l. m_dataLight other = Some l \<and> 2048 \<le> length l \<and> m_dataLight c = Some (take 2048 l))
       \<and> (case m_dataSkyLight other of None \<Rightarrow> m_dataSkyLight c = None
           | Some k \<Rightarrow> 2048 \<le> length k \<and> m_dataSkyLight c = Some (take 2048 k))"
  using assms unfolding Section_copy_def
  by (auto simp: copy_buffer_def split: option.splits if_splits sum.splits)

lemma Section_copy_sample:
  "Section_copy (sample_section n None) = Inr (sample_section n None)"
  by (simp add: Section_copy_def copy_buffer_def sample_section_def)

lemma spec_byte_of_bits_horner: "spec_byte_of_bits bs = horner_sum of_bool 2 bs"
  by (induction bs) simp_all

lemma bit_spec_byte_of_bits:
  "bit (spec_byte_of_bits bs) k \<longleftrightarrow> k < 8 \<and> k < length bs \<and> bs ! k"
  unfolding spec_byte_of_bits_horner by (simp add: bit_horner_sum_bit_word_iff)

lemma unpack_bytes_4:
  "unpack_bytes 4 ds (0, 0, blocks) =
     Inr (replicate (length ds) 0, 0, 0,
          blocks @ concat (map (\<lambda>d. [ucast (take_bit 4 d), ucast (drop_bit 4 d)]) ds))"
  by (induction ds arbitrary: blocks) (simp_all add: unpack_byte_4)

lemma spec_pack_4_pair:
  "spec_pack 4 (a # b # vs) =
     spec_byte_of_bits (spec_value_bits 4 a @ spec_value_bits 4 b) # spec_pack 4 vs"
proof -
  let ?h = "spec_value_bits 4 a @ spec_value_bits 4 b"
  let ?r = "concat (map (spec_value_bits 4) vs)"
  have l: "length ?h = 8" by (simp add: spec_value_bits_def)
  then obtain x xs where c: "?h = x # xs" by (cases ?h) simp_all
  have "spec_chunk8 (?h @ ?r) = take 8 (?h @ ?r) # spec_chunk8 (drop 8 (?h @ ?r))"
    unfolding c by simp
  then have "spec_chunk8 (?h @ ?r) = ?h # spec_chunk8 ?r" using l by simp
  then show ?thesis by (simp add: spec_pack_def)
qed

lemma low_entry_bits:
  fixes v :: ushort
  assumes "unat v < 16" and "bit v k"
  shows "k < 4"
proof -
  have "unat (take_bit 4 v) = take_bit 4 (unat v)" by (rule unsigned_take_bit_eq)
  also have "\<dots> = unat v mod 2 ^ 4" by (rule take_bit_eq_mod)
  also have "\<dots> = unat v" using assms(1) by simp
  finally have "take_bit 4 v = v" by (rule word_unat_eq_iff [THEN iffD2])
  then have "bit (take_bit 4 v) k" using assms(2) by simp
  then show ?thesis by (simp add: bit_take_bit_iff)
qed

lemma pair_byte_low:
  fixes a b :: ushort
  assumes "unat a < 16"
  shows "ucast (take_bit 4 (spec_byte_of_bits (spec_value_bits 4 a @ spec_value_bits 4 b))) = a"
proof (rule bit_word_eqI)
  fix k assume "k < LENGTH(16)"
  show "bit (ucast (take_bit 4 (spec_byte_of_bits (spec_value_bits 4 a @ spec_value_bits 4 b))) :: ushort) k
      = bit a k"
    using low_entry_bits [OF assms, of k]
    by (auto simp: bit_ucast_iff bit_take_bit_iff bit_spec_byte_of_bits spec_value_bits_def nth_append)
qed

lemma pair_byte_high:
  fixes a b :: ushort
  assumes "unat b < 16"
  shows "ucast (drop_bit 4 (spec_byte_of_bits (spec_value_bits 4 a @ spec_value_bits 4 b))) = b"
proof (rule bit_word_eqI)
  fix k assume "k < LENGTH(16)"
  show "bit (ucast (drop_bit 4 (spec_byte_of_bits (spec_value_bits 4 a @ spec_value_bits 4 b))) :: ushort) k
      = bit b k"
    using low_entry_bits [OF assms, of k]
    by (auto simp: bit_ucast_iff bit_drop_bit_eq bit_spec_byte_of_bits spec_value_bits_def nth_append)
qed

lemma unpack_pack_4:
  assumes "even (length vs)" and "\<forall>v\<in>set vs. unat v < 16"
  shows "concat (map (\<lambda>d. [ucast (take_bit 4 d), ucast (drop_bit 4 d)]) (spec_pack 4 vs)) = vs
       \<and> length (spec_pack 4 vs) = length vs div 2"
  using assms
proof (induction vs rule: induct_list012)
  case 1
  then show ?case by (simp add: spec_pack_def)
next
  case (2 x)
  then show ?case by simp
next
  case (3 a b vs)
  then show ?case
    by (simp add: spec_pack_4_pair pair_byte_low pair_byte_high)
qed

lemma roundtrip_width4:
  assumes "even (length vs)" and "\<forall>v\<in>set vs. unat v < 16"
  shows "bit_unpack 4 (spec_pack 4 vs) = Inr (replicate (length vs div 2) 0, vs)"
  using unpack_pack_4 [OF assms] by (simp add: bit_unpack_def unpack_bytes_4)








lemma bit_unpack_33: "bit_unpack 33 (replicate 8 0xFF) = Inl (BadShift 32)"
proof -
  have r: "replicate 8 (0xFF :: byte) = [0xFF, 0xFF, 0xFF, 0xFF, 0xFF, 0xFF, 0xFF, 0xFF]"
    by code_simp
  show ?thesis
    unfolding r by (simp add: bit_unpack_def unpack_bits_unfold unpack_bit_alt)
qed

lemma bit_unpack_wide:
  assumes "32 < bpb" and "bit_unpack bpb buf = Inr (buf', blocks)"
  shows "blocks = []"
proof -
  from assms(2) obtain t p where
    "unpack_bytes bpb buf (0, 0, []) = Inr (buf', t, p, blocks)"
    by (auto simp: bit_unpack_def split: sum.splits)
  from unpack_bytes_wide [OF assms(1) _ this] assms(1) show ?thesis by simp
qed



section \<open>The claims\<close>

subsection \<open>C1: lookup in a decoded section\<close>



subsection \<open>C2: packing and unpacking again\<close>

text \<open>
  Claim C2 says that packing 4096 entries of \<open>bpb\<close> bits each and running the bit loop
  on the result gives the entries back, for the widths 4, 5, 6, 8, 9, 12 and 16.  The
  loop puts every bit at position 7 of the accumulator, so for a width other than 4 the
  low bits of an entry are shifted out.  Here the loop is run on 4096 entries of value 31
  packed with 5 bits each (2560 bytes \<open>0xFF\<close>): it pushes 4096 times the value 7.
  (For the width 4 the round trip holds, see \<open>roundtrip_width4\<close> above.)
\<close>

theorem roundtrip_width5_fails:
  "bit_unpack 5 (spec_pack 5 (replicate 4096 31)) = Inr (replicate 2560 0, replicate 4096 7)"
proof -
  have "unpack_bytes 5 (replicate (5 * 512) 0xFF) (0, 0, []) =
          Inr (replicate (5 * 512) 0, 0, 0, [] @ replicate (8 * 512) 7)"
    by (rule unpack_ones_groups)
  then show ?thesis by (simp add: bit_unpack_def spec_pack_all_31)
qed

subsection \<open>C3: pending or decoded\<close>

text \<open>
  Claim C3 says that every operation keeps "exactly one of raw buffers and voxels", and
  that a failing \<open>Parse\<close> leaves the section as it was.  The check of the counts comes after
  the loop that pushes onto \<open>m_blocks\<close>: the constructor's section for 4104 block bytes
  \<open>0x12\<close> with 8 bits per block is pending; \<open>Parse\<close> throws 118 on it and leaves a
  section that has both a raw buffer, whose bytes the bit loop has shifted to 0, and 4096
  voxels.
\<close>

theorem Parse_throw_not_atomic:
  "Section_ctor (Vector 0 0 0) (replicate 4104 0x12) (Some (replicate 2048 0xAB)) None 8 []
     = Inr (sample_section 4104 None)
   \<and> spec_exactly_one (sample_section 4104 None)
   \<and> Parse (sample_section 4104 None) = Thrown 118 (sample_thrown 4104 None)
   \<and> \<not> spec_exactly_one (sample_thrown 4104 None)
   \<and> raw_buffers_present (sample_thrown 4104 None)
   \<and> length (m_blocks (sample_thrown 4104 None)) = 4096
   \<and> sample_thrown 4104 None \<noteq> sample_section 4104 None"
proof -
  have "(4096 :: nat) = Suc 4095" by simp
  then have ne: "replicate 4096 (Block 0 0) \<noteq> []" by (simp only: replicate_Suc) simp
  have "m_blocks (sample_thrown 4104 None) \<noteq> m_blocks (sample_section 4104 None)"
    using ne by (simp add: sample_section_def sample_thrown_def)
  then have "sample_thrown 4104 None \<noteq> sample_section 4104 None" by auto
  then show ?thesis
    using ne
    by (simp add: Section_ctor_sample Parse_sample_thrown)
       (simp add: sample_section_def sample_thrown_def spec_exactly_one_def
          raw_buffers_present_def voxels_present_def)
qed

text \<open>
  Claim C3, as amended.  The constructor gives a pending section: raw buffer present, no
  voxels.  When \<open>Parse\<close> returns on a pending section, the result is decoded: the three
  buffers are null and there are exactly 4096 voxels.  On a section without raw buffer
  \<open>Parse\<close> returns it unchanged.  Copying a pending section gives a pending section with
  the same block bytes.  (\<open>GetBlock\<close> writes no member: in the model it has no successor
  state.)  Nothing is said here about a \<open>Parse\<close> that throws.
\<close>

theorem lifecycle_invariant:
  "(Section_ctor position dataBlocks dataLight dataSky bitsPerBlock palette = Inr s0
      \<longrightarrow> raw_buffers_present s0 \<and> \<not> voxels_present s0 \<and> spec_exactly_one s0)
   \<and> (raw_buffers_present s \<and> \<not> voxels_present s \<and> Parse s = Returned s'
      \<longrightarrow> \<not> raw_buffers_present s' \<and> length (m_blocks s') = 4096 \<and> spec_exactly_one s'
        \<and> m_dataLight s' = None \<and> m_dataSkyLight s' = None)
   \<and> (\<not> raw_buffers_present s \<longrightarrow> Parse s = Returned s)
   \<and> (raw_buffers_present s \<and> \<not> voxels_present s \<and> Section_copy s = Inr c
      \<longrightarrow> m_dataBlocks c = m_dataBlocks s \<and> \<not> voxels_present c \<and> spec_exactly_one c)"
proof (intro conjI impI)
  assume "Section_ctor position dataBlocks dataLight dataSky bitsPerBlock palette = Inr s0"
  from Section_ctor_Inr [OF this]
  have "m_dataBlocks s0 = Some dataBlocks" "m_blocks s0 = []" by simp_all
  then show "raw_buffers_present s0" "\<not> voxels_present s0" "spec_exactly_one s0"
    by (simp_all add: raw_buffers_present_def voxels_present_def spec_exactly_one_def)
next
  assume a: "raw_buffers_present s \<and> \<not> voxels_present s \<and> Parse s = Returned s'"
  then obtain raw where m: "m_dataBlocks s = Some raw" and e: "m_blocks s = []"
    by (auto simp: raw_buffers_present_def voxels_present_def)
  from a Parse_Returned_pending [OF m, of s'] obtain buf' blocks light voxels where
    d: "Parse_decode s raw = Inr (buf', blocks, light, voxels)"
    and s': "s' = s\<lparr>m_dataBlocks := None, m_dataLight := None,
                     m_dataSkyLight := None, m_blocks := voxels\<rparr>"
    by blast
  from Parse_decode_Inr [OF d] e
  have "resolve_loop (m_palette s) blocks [0..<4096] [] = Inr voxels" by simp
  from resolve_loop_Inr [OF this] have len: "length voxels = 4096" by auto
  then have ne: "voxels \<noteq> []" by auto
  show "\<not> raw_buffers_present s'" "length (m_blocks s') = 4096" "spec_exactly_one s'"
    "m_dataLight s' = None" "m_dataSkyLight s' = None"
    using len ne unfolding s'
    by (simp_all add: raw_buffers_present_def voxels_present_def spec_exactly_one_def)
next
  assume "\<not> raw_buffers_present s"
  then show "Parse s = Returned s"
    by (simp add: raw_buffers_present_def Parse_def)
next
  assume a: "raw_buffers_present s \<and> \<not> voxels_present s \<and> Section_copy s = Inr c"
  then obtain raw where m: "m_dataBlocks s = Some raw"
    by (auto simp: raw_buffers_present_def)
  from a Section_copy_Inr [OF _ m, of c]
  have "m_dataBlocks c = Some raw" "m_blocks c = []" by simp_all
  with m show "m_dataBlocks c = m_dataBlocks s" "\<not> voxels_present c" "spec_exactly_one c"
    by (simp_all add: raw_buffers_present_def voxels_present_def spec_exactly_one_def)
qed

theorem lifecycle_invariant_witness:
  "Section_ctor (Vector 0 0 0) (replicate 4096 0x12) (Some (replicate 2048 0xAB)) None 8 []
     = Inr (sample_section 4096 None)
   \<and> raw_buffers_present (sample_section 4096 None) \<and> \<not> voxels_present (sample_section 4096 None)
   \<and> Parse (sample_section 4096 None) = Returned sample_decoded
   \<and> \<not> raw_buffers_present sample_decoded \<and> spec_exactly_one sample_decoded
   \<and> Parse sample_decoded = Returned sample_decoded
   \<and> Section_copy (sample_section 4096 None) = Inr (sample_section 4096 None)
   \<and> spec_exactly_one (sample_section 4096 None)"
proof -
  let ?s = "sample_section 4096 None"
  have c: "Section_ctor (Vector 0 0 0) (replicate 4096 0x12) (Some (replicate 2048 0xAB)) None 8 [] = Inr ?s"
    by (rule Section_ctor_sample)
  have p: "Parse ?s = Returned sample_decoded" by (simp add: Parse_sample_decoded)
  have k: "Section_copy ?s = Inr ?s" by (rule Section_copy_sample)
  note t = lifecycle_invariant [of "Vector 0 0 0" "replicate 4096 0x12" "Some (replicate 2048 0xAB)"
      None 8 "[]" ?s ?s sample_decoded ?s]
  from t c have 1: "raw_buffers_present ?s" "\<not> voxels_present ?s" "spec_exactly_one ?s" by blast+
  from t 1 p have 2: "\<not> raw_buffers_present sample_decoded" "spec_exactly_one sample_decoded" by blast+
  from lifecycle_invariant [of "Vector 0 0 0" "replicate 4096 0x12" "Some (replicate 2048 0xAB)"
      None 8 "[]" ?s sample_decoded sample_decoded ?s] 2
  have 3: "Parse sample_decoded = Returned sample_decoded" by blast
  from c 1 p 2 3 k show ?thesis by blast
qed

subsection \<open>C4: the light loop\<close>

text \<open>
  Claim C4 says in its second half that \<open>Parse\<close> applies the light mapping to the
  sky-light buffer as well.  \<open>Parse\<close> only frees \<open>m_dataSkyLight\<close>.  For the section with
  light bytes \<open>0xAB\<close> and sky-light bytes \<open>0x5C\<close>, the vectors that \<open>Parse\<close> computes
  hold the values \<open>0xA0\<close> and \<open>0x0A\<close> of the light buffer and no value of the sky-light
  buffer, and \<open>Parse\<close> ends exactly as on the section without sky light.
\<close>

theorem sky_light_not_unpacked:
  "Section_ctor (Vector 0 0 0) (replicate 4096 0x12) (Some (replicate 2048 0xAB))
       (Some (replicate 2048 0x5C)) 8 []
     = Inr (sample_section 4096 (Some (replicate 2048 0x5C)))
   \<and> Parse_decode (sample_section 4096 (Some (replicate 2048 0x5C))) (replicate 4096 0x12) =
       Inr (replicate 4096 0, replicate 4096 0, concat (replicate 2048 [0xA0, 0x0A]),
            replicate 4096 (Block 0 0))
   \<and> Parse (sample_section 4096 (Some (replicate 2048 0x5C))) = Parse (sample_section 4096 None)"
  by (simp add: Section_ctor_sample_sky Parse_decode_sample Parse_sample_decoded)

text \<open>
  Claim C4, as amended.  The light loop maps a buffer of 2048 bytes to exactly 4096
  values: the byte \<open>b\<close> at position \<open>i\<close> gives \<open>b & 0xF0\<close> at position \<open>2 * i\<close> and
  \<open>b >> 4\<close> at position \<open>2 * i + 1\<close>.  This is the vector \<open>light\<close> of \<open>Parse\<close>.  The
  sky-light buffer is not unpacked: what \<open>Parse\<close> computes does not depend on it.
\<close>

theorem unpack_light_mapping:
  "(length buf = 2048 \<longrightarrow>
      (\<exists>light. unpack_light (Some buf) = Inr light \<and> length light = 4096
         \<and> (\<forall>i<2048. light ! (2 * i) = buf ! i AND 0xF0
                     \<and> light ! (2 * i + 1) = drop_bit 4 (buf ! i))))
   \<and> (Parse_decode s raw = Inr (buf', blocks, light', voxels)
        \<longrightarrow> unpack_light (m_dataLight s) = Inr light')
   \<and> Parse_decode (s\<lparr>m_dataSkyLight := sky\<rparr>) raw = Parse_decode s raw"
proof (intro conjI impI)
  assume l: "length buf = 2048"
  then obtain light where u: "unpack_light (Some buf) = Inr light"
    using unpack_light_eq [of buf] by simp
  from unpack_light_Inr [OF u] u
  show "\<exists>light. unpack_light (Some buf) = Inr light \<and> length light = 4096
         \<and> (\<forall>i<2048. light ! (2 * i) = buf ! i AND 0xF0
                     \<and> light ! (2 * i + 1) = drop_bit 4 (buf ! i))"
    by auto
next
  assume "Parse_decode s raw = Inr (buf', blocks, light', voxels)"
  from Parse_decode_Inr [OF this] show "unpack_light (m_dataLight s) = Inr light'" by simp
next
  show "Parse_decode (s\<lparr>m_dataSkyLight := sky\<rparr>) raw = Parse_decode s raw"
    by (rule Parse_decode_sky)
qed

theorem unpack_light_mapping_witness:
  "length (replicate 2048 (0xAB :: byte)) = 2048
   \<and> (\<exists>light. unpack_light (Some (replicate 2048 0xAB)) = Inr light \<and> length light = 4096
         \<and> light ! (2 * 5) = 0xA0 \<and> light ! (2 * 5 + 1) = 0x0A)"
proof -
  have l: "length (replicate 2048 (0xAB :: byte)) = 2048" by simp
  from unpack_light_mapping [of "replicate 2048 0xAB"] l obtain light where
    u: "unpack_light (Some (replicate 2048 0xAB)) = Inr light" "length light = 4096"
    and a: "\<forall>i<2048. light ! (2 * i) = replicate 2048 (0xAB :: byte) ! i AND 0xF0
                     \<and> light ! (2 * i + 1) = drop_bit 4 (replicate 2048 (0xAB :: byte) ! i)"
    by blast
  from a have "light ! (2 * 5) = replicate 2048 (0xAB :: byte) ! 5 AND 0xF0
             \<and> light ! (2 * 5 + 1) = drop_bit 4 (replicate 2048 (0xAB :: byte) ! 5)"
    by (rule allE [of _ 5]) simp
  then have "light ! (2 * 5) = 0xA0 \<and> light ! (2 * 5 + 1) = 0x0A" by simp
  with u l show ?thesis by blast
qed

subsection \<open>C5: the light byte \<open>0xAB\<close>\<close>

text \<open>
  Claim C5 says that the light byte \<open>0xAB\<close> gives the pair \<open>(0xA0, 0xB0)\<close>.  The second
  value pushed is \<open>t >> 4\<close>, which is \<open>0x0A\<close>: one pass of the loop on a buffer whose
  byte 0 is \<open>0xAB\<close> does not give \<open>[0xA0, 0xB0]\<close>.
\<close>

theorem light_0xAB_not_A0_B0: "light_loop [0xAB] [0] [] \<noteq> Inr [0xA0, 0xB0]"
  by (simp add: Let_def)

text \<open>
  Claim C5, as amended.  For the light byte \<open>0xAB\<close> the loop pushes \<open>0xA0\<close> and then
  \<open>0x0A\<close>: the high nibble in the high position first, then the same high nibble shifted
  down into the low position.
\<close>

theorem light_0xAB_pair:
  "i < length buf \<Longrightarrow> buf ! i = 0xAB \<Longrightarrow> light_loop buf [i] light = Inr (light @ [0xA0, 0x0A])"
  by (simp add: Let_def)

theorem light_0xAB_pair_witness:
  "(0::nat) < length [0xAB :: byte] \<and> [0xAB :: byte] ! 0 = 0xAB
   \<and> light_loop [0xAB] [0] [] = Inr [0xA0, 0x0A]"
proof -
  have h1: "(0::nat) < length [0xAB :: byte]" and h2: "[0xAB :: byte] ! 0 = 0xAB" by simp_all
  from light_0xAB_pair [OF h1 h2, of "[]"] h1 h2 show ?thesis by simp
qed

subsection \<open>C6: the check of the counts\<close>




subsection \<open>C7: copy construction\<close>

text \<open>
  Claim C7 says that copying a decoded section gives a section with the same 4096 voxels.
  The copy constructor never assigns \<open>m_blocks\<close> and reads 2048 bytes through
  \<open>other.m_dataLight\<close> without testing it.  On the decoded sample section, whose light
  buffer \<open>Parse\<close> has freed, the copy reads through a null pointer.  On the section that a
  throwing \<open>Parse\<close> leaves, which still has its buffers and has 4096 voxels, the copy has
  no voxels.
\<close>

theorem Section_copy_loses_voxels:
  "Parse (sample_section 4096 None) = Returned sample_decoded
   \<and> length (m_blocks sample_decoded) = 4096
   \<and> Section_copy sample_decoded = Inl NullRead
   \<and> Parse (sample_section 4104 None) =
       Thrown 118 (sample_thrown 4104 None)
   \<and> Section_copy (sample_thrown 4104 None)
       = Inr ((sample_thrown 4104 None)\<lparr>m_blocks := []\<rparr>)"
  by (simp add: Parse_sample_decoded Parse_sample_thrown)
     (simp add: Section_copy_def copy_buffer_def sample_decoded_def sample_thrown_def)

subsection \<open>C9: the range of the bit loop\<close>

text \<open>
  Claim C9 says that for every width of 8 or more every value that the bit loop pushes
  is 0.  At the width 33 on 8 bytes \<open>0xFF\<close> the loop comes to its one push (64 bits
  hold one entry of 33 bits) with \<open>t >>= 32\<close>, a shift of an \<open>int\<close> by its full
  width, which is undefined: the loop does not push the value 0.
\<close>

theorem width33_undefined:
  "bit_unpack 33 (replicate 8 0xFF) = Inl (BadShift 32)
   \<and> bit_unpack 33 (replicate 8 0xFF) \<noteq> Inr (replicate 8 0, [0])
   \<and> (8 * length (replicate 8 (0xFF :: byte))) div 33 = 1"
  by (simp add: bit_unpack_33)

text \<open>
  Claim C9, as amended.  Let the width \<open>bpb\<close> be at least 1 and at most 32.  The bit loop
  runs to its end on every buffer and pushes \<open>(8 * length) div bpb\<close> values.  Every value
  pushed is below \<open>2 ^ (8 - bpb)\<close> when \<open>bpb \<le> 8\<close>, hence below 256, and is 0 when
  \<open>bpb \<ge> 8\<close>.  Only the width 4 gives the full range of entries: for every other width
  the entry \<open>2 ^ bpb - 1\<close> is never pushed, while for the width 4 every entry below 16
  is pushed for some byte.
\<close>

theorem bit_unpack_range:
  "1 \<le> bpb \<Longrightarrow> bpb \<le> 32 \<Longrightarrow>
     (\<exists>buf' blocks. bit_unpack bpb buf = Inr (buf', blocks)
        \<and> length blocks = (8 * length buf) div bpb
        \<and> (\<forall>v\<in>set blocks.
              (bpb \<le> 8 \<longrightarrow> unat v < 2 ^ (8 - bpb)) \<and> unat v < 256 \<and>
              (8 \<le> bpb \<longrightarrow> v = 0) \<and>
              (bpb \<noteq> 4 \<longrightarrow> unat v \<noteq> 2 ^ bpb - 1)))
   \<and> (\<forall>e. unat e < 16 \<longrightarrow> (\<exists>b buf' blocks. bit_unpack 4 [b] = Inr (buf', blocks) \<and> e \<in> set blocks))"
proof (intro conjI allI impI)
  assume p: "1 \<le> bpb" and q: "bpb \<le> 32"
  from bit_unpack_shape [of bpb buf] p q obtain blocks where
    u: "bit_unpack bpb buf = Inr (replicate (length buf) 0, blocks)"
    and l: "length blocks = (8 * length buf) div bpb"
    by auto
  have "(bpb \<le> 8 \<longrightarrow> unat v < 2 ^ (8 - bpb)) \<and> unat v < 256 \<and>
        (8 \<le> bpb \<longrightarrow> v = 0) \<and> (bpb \<noteq> 4 \<longrightarrow> unat v \<noteq> 2 ^ bpb - 1)"
    if "v \<in> set blocks" for v
  proof -
    from bit_unpack_emit_ok [OF u _ that] p have ok: "emit_ok bpb v" by simp
    have "unat v < 256"
    proof (cases "bpb \<le> 8")
      case True
      have "(2::nat) ^ (8 - bpb) \<le> 2 ^ 8" by (intro power_increasing) simp_all
      with emit_ok_bound [OF ok True] show ?thesis by simp
    next
      case False
      then have "v = 0" using emit_ok_zero [OF ok] by simp
      then show ?thesis by simp
    qed
    then show ?thesis
      using emit_ok_bound [OF ok] emit_ok_zero [OF ok] emit_ok_not_top [OF ok] p by simp
  qed
  with u l show "\<exists>buf' blocks. bit_unpack bpb buf = Inr (buf', blocks)
        \<and> length blocks = (8 * length buf) div bpb
        \<and> (\<forall>v\<in>set blocks.
              (bpb \<le> 8 \<longrightarrow> unat v < 2 ^ (8 - bpb)) \<and> unat v < 256 \<and>
              (8 \<le> bpb \<longrightarrow> v = 0) \<and>
              (bpb \<noteq> 4 \<longrightarrow> unat v \<noteq> 2 ^ bpb - 1))"
    by blast
next
  fix e :: ushort
  assume "unat e < 16"
  from low_entry_roundtrip [OF this] show "\<exists>b buf' blocks. bit_unpack 4 [b] = Inr (buf', blocks) \<and> e \<in> set blocks"
    using bit_unpack_4_single [of "ucast e"] by (intro exI [of _ "ucast e"]) auto
qed

theorem bit_unpack_range_witness:
  "(1::nat) \<le> 5 \<and> (5::nat) \<le> 32
   \<and> bit_unpack 5 [0xFF, 0xFF, 0xFF, 0xFF, 0xFF] = Inr ([0, 0, 0, 0, 0], [7, 7, 7, 7, 7, 7, 7, 7])
   \<and> length [7, 7, 7, 7, 7, 7, 7, 7 :: ushort] = (8 * length [0xFF, 0xFF, 0xFF, 0xFF, 0xFF :: byte]) div 5
   \<and> unat (7 :: ushort) < 2 ^ (8 - 5) \<and> unat (7 :: ushort) \<noteq> 2 ^ 5 - 1
   \<and> (1::nat) \<le> 12 \<and> (12::nat) \<le> 32
   \<and> bit_unpack 12 [0xFF, 0xFF, 0xFF] = Inr ([0, 0, 0], [0, 0])"
proof -
  have h: "(1::nat) \<le> 5" "(5::nat) \<le> 32" and k: "(1::nat) \<le> 12" "(12::nat) \<le> 32" by simp_all
  have e: "bit_unpack 5 [0xFF, 0xFF, 0xFF, 0xFF, 0xFF] = Inr ([0, 0, 0, 0, 0], [7, 7, 7, 7, 7, 7, 7, 7])"
    using unpack_five_ones [of "[]"] by (simp add: bit_unpack_def)
  from bit_unpack_range [OF h, of "[0xFF, 0xFF, 0xFF, 0xFF, 0xFF]"] e
  have a: "length [7, 7, 7, 7, 7, 7, 7, 7 :: ushort] = (8 * length [0xFF, 0xFF, 0xFF, 0xFF, 0xFF :: byte]) div 5
     \<and> unat (7 :: ushort) < 2 ^ (8 - 5) \<and> unat (7 :: ushort) \<noteq> 2 ^ 5 - 1"
    by simp
  from bit_unpack_range [OF k, of "[0xFF, 0xFF, 0xFF]"] obtain buf' blocks where
    u: "bit_unpack 12 [0xFF, 0xFF, 0xFF] = Inr (buf', blocks)"
    and l: "length blocks = (8 * length [0xFF, 0xFF, 0xFF :: byte]) div 12"
    and z: "\<forall>v\<in>set blocks. v = 0"
    by auto
  from l have "length blocks = 2" by simp
  with z have "blocks = replicate 2 0" by (intro replicate_eqI) simp_all
  then have "blocks = [0, 0]" by (simp add: numeral_2_eq_2)
  moreover from u bit_unpack_shape [of 12 "[0xFF, 0xFF, 0xFF]"] have "buf' = [0, 0, 0]"
    by (simp add: numeral_3_eq_3)
  ultimately have b: "bit_unpack 12 [0xFF, 0xFF, 0xFF] = Inr ([0, 0, 0], [0, 0])" using u by simp
  from h k e a b show ?thesis by blast
qed

subsection \<open>C10: reading the decoded entries\<close>

text \<open>
  Claim C10.  \<open>Parse\<close> reads \<open>blocks[i]\<close> for every \<open>i\<close> from 0 to 4095.  The bit loop
  pushes \<open>(8 * length) div bpb\<close> entries, so the read at \<open>i\<close> is out of range exactly when
  that number is at most \<open>i\<close>, and \<open>Parse\<close> can only return or throw when the number is at
  least 4096.  A block buffer whose length is a multiple of 8 and a width of at least 1 do
  not give that: for 8 block bytes and 8 bits per block the read at index 8 is out of range.
\<close>

theorem blocks_read_out_of_range:
  "(m_dataBlocks s = Some raw \<and> 1 \<le> unat (m_bitsPerBlock s)
      \<and> (Parse s = Returned s' \<or> Parse s = Thrown e s')
      \<longrightarrow> 4096 \<le> (8 * length raw) div unat (m_bitsPerBlock s))
   \<and> (1 \<le> bpb \<and> bit_unpack bpb buf = Inr (buf', blocks)
      \<longrightarrow> length blocks = (8 * length buf) div bpb
        \<and> (\<forall>i<4096. resolve palette blocks i = Inl (BlocksIndexOutOfRange i)
                      \<longleftrightarrow> (8 * length buf) div bpb \<le> i))
   \<and> Section_ctor (Vector 0 0 0) (replicate 8 0x12) (Some (replicate 2048 0xAB)) None 8 []
        = Inr (sample_section 8 None)
   \<and> length (replicate 8 (0x12 :: byte)) mod 8 = 0 \<and> 1 \<le> unat (8 :: byte)
   \<and> Parse (sample_section 8 None) = Undefined (BlocksIndexOutOfRange 8)"
proof (intro conjI impI)
  assume "m_dataBlocks s = Some raw \<and> 1 \<le> unat (m_bitsPerBlock s)
      \<and> (Parse s = Returned s' \<or> Parse s = Thrown e s')"
  then show "4096 \<le> (8 * length raw) div unat (m_bitsPerBlock s)"
    using Parse_completes_count [of s raw s' e] by blast
next
  assume a: "1 \<le> bpb \<and> bit_unpack bpb buf = Inr (buf', blocks)"
  then show l: "length blocks = (8 * length buf) div bpb"
    using bit_unpack_length [of bpb buf buf' blocks] by simp
  show "\<forall>i<4096. resolve palette blocks i = Inl (BlocksIndexOutOfRange i)
                      \<longleftrightarrow> (8 * length buf) div bpb \<le> i"
    unfolding l [symmetric] by (auto simp: resolve_def Let_def)
next
  show "Section_ctor (Vector 0 0 0) (replicate 8 0x12) (Some (replicate 2048 0xAB)) None 8 []
        = Inr (sample_section 8 None)"
    by (rule Section_ctor_sample)
  show "Parse (sample_section 8 None) = Undefined (BlocksIndexOutOfRange 8)"
    by (simp add: Parse_sample)
qed simp_all

theorem blocks_read_out_of_range_witness:
  "m_dataBlocks (sample_section 4104 None) = Some (replicate 4104 0x12)
   \<and> 1 \<le> unat (m_bitsPerBlock (sample_section 4104 None))
   \<and> Parse (sample_section 4104 None) =
       Thrown 118 (sample_thrown 4104 None)
   \<and> 4096 \<le> (8 * length (replicate 4104 (0x12 :: byte))) div unat (m_bitsPerBlock (sample_section 4104 None))
   \<and> bit_unpack 8 [0x12, 0x34] = Inr ([0, 0], [0, 0])
   \<and> resolve [] [0, 0] 2 = Inl (BlocksIndexOutOfRange 2)"
proof -
  let ?s = "sample_section 4104 None"
  have m: "m_dataBlocks ?s = Some (replicate 4104 0x12)" and b: "1 \<le> unat (m_bitsPerBlock ?s)"
    by (simp_all add: sample_section_def)
  have t: "Parse ?s = Thrown 118 (sample_thrown 4104 None)"
    by (simp add: Parse_sample_thrown)
  have u: "bit_unpack 8 [0x12, 0x34] = Inr ([0, 0], [0, 0])"
    using bit_unpack_8 [of "[0x12, 0x34]"] by (simp add: numeral_2_eq_2)
  from blocks_read_out_of_range
    [of ?s "replicate 4104 0x12" "sample_thrown 4104 None" 118
        8 "[0x12, 0x34]" "[0, 0]" "[0, 0]" "[]"]
    m b t u
  have "4096 \<le> (8 * length (replicate 4104 (0x12 :: byte))) div unat (m_bitsPerBlock ?s)"
    and "resolve [] [0, 0] 2 = Inl (BlocksIndexOutOfRange 2)"
    by simp_all
  with m b t u show ?thesis by blast
qed

end
